theory Spec2Isabelle
  imports Main "HOL-Library.Word"
begin

unbundle bit_operations_syntax

section \<open>Scheduler declarations of runtime2.go\<close>

text \<open>
  The development follows \<^verbatim>\<open>src/runtime/runtime2.go\<close> of Go 1.16.14. Go identifiers that
  start with an underscore lose it (\<^verbatim>\<open>_Gidle\<close> is \<open>Gidle\<close>), since an Isabelle name cannot
  start with one.
\<close>

type_synonym uint8 = "8 word"
type_synonym uint32 = "32 word"

subsection \<open>G status\<close>

text \<open>
  The first constant block: \<^verbatim>\<open>_Gidle = iota\<close> and the eight constants after it, then the
  scan bit and its five combinations. The status field \<^verbatim>\<open>g.atomicstatus\<close> is a
  \<^verbatim>\<open>uint32\<close>, so the constants are read at that type.
\<close>

definition Gidle :: uint32 where "Gidle = 0"
definition Grunnable :: uint32 where "Grunnable = 1"
definition Grunning :: uint32 where "Grunning = 2"
definition Gsyscall :: uint32 where "Gsyscall = 3"
definition Gwaiting :: uint32 where "Gwaiting = 4"
definition Gmoribund_unused :: uint32 where "Gmoribund_unused = 5"
definition Gdead :: uint32 where "Gdead = 6"
definition Genqueue_unused :: uint32 where "Genqueue_unused = 7"
definition Gcopystack :: uint32 where "Gcopystack = 8"
definition Gpreempted :: uint32 where "Gpreempted = 9"

definition Gscan :: uint32 where "Gscan = 0x1000"
definition Gscanrunnable :: uint32 where "Gscanrunnable = Gscan + Grunnable"
definition Gscanrunning :: uint32 where "Gscanrunning = Gscan + Grunning"
definition Gscansyscall :: uint32 where "Gscansyscall = Gscan + Gsyscall"
definition Gscanwaiting :: uint32 where "Gscanwaiting = Gscan + Gwaiting"
definition Gscanpreempted :: uint32 where "Gscanpreempted = Gscan + Gpreempted"

lemmas G_status_defs =
  Gidle_def Grunnable_def Grunning_def Gsyscall_def Gwaiting_def Gmoribund_unused_def
  Gdead_def Genqueue_unused_def Gcopystack_def Gpreempted_def

lemmas Gscan_status_defs =
  Gscan_def Gscanrunnable_def Gscanrunning_def Gscansyscall_def Gscanwaiting_def
  Gscanpreempted_def

text \<open>The ten status constants and the five scan constants, in declaration order.\<close>

definition G_statuses :: "uint32 list" where
  "G_statuses = [Gidle, Grunnable, Grunning, Gsyscall, Gwaiting, Gmoribund_unused,
     Gdead, Genqueue_unused, Gcopystack, Gpreempted]"

definition Gscan_statuses :: "uint32 list" where
  "Gscan_statuses = [Gscanrunnable, Gscanrunning, Gscansyscall, Gscanwaiting, Gscanpreempted]"

text \<open>
  The comment on \<^verbatim>\<open>_Gscan\<close>: \<^verbatim>\<open>atomicstatus&~Gscan\<close> gives the state the goroutine
  returns to when the scan completes.
\<close>

definition scan_return_status :: "uint32 \<Rightarrow> uint32" where
  "scan_return_status atomicstatus = atomicstatus AND NOT Gscan"

subsection \<open>Wait reasons\<close>

type_synonym waitReason = uint8

definition waitReasonZero :: waitReason where "waitReasonZero = 0"
definition waitReasonGCAssistMarking :: waitReason where "waitReasonGCAssistMarking = 1"
definition waitReasonIOWait :: waitReason where "waitReasonIOWait = 2"
definition waitReasonChanReceiveNilChan :: waitReason where "waitReasonChanReceiveNilChan = 3"
definition waitReasonChanSendNilChan :: waitReason where "waitReasonChanSendNilChan = 4"
definition waitReasonDumpingHeap :: waitReason where "waitReasonDumpingHeap = 5"
definition waitReasonGarbageCollection :: waitReason where "waitReasonGarbageCollection = 6"
definition waitReasonGarbageCollectionScan :: waitReason where
  "waitReasonGarbageCollectionScan = 7"
definition waitReasonPanicWait :: waitReason where "waitReasonPanicWait = 8"
definition waitReasonSelect :: waitReason where "waitReasonSelect = 9"
definition waitReasonSelectNoCases :: waitReason where "waitReasonSelectNoCases = 10"
definition waitReasonGCAssistWait :: waitReason where "waitReasonGCAssistWait = 11"
definition waitReasonGCSweepWait :: waitReason where "waitReasonGCSweepWait = 12"
definition waitReasonGCScavengeWait :: waitReason where "waitReasonGCScavengeWait = 13"
definition waitReasonChanReceive :: waitReason where "waitReasonChanReceive = 14"
definition waitReasonChanSend :: waitReason where "waitReasonChanSend = 15"
definition waitReasonFinalizerWait :: waitReason where "waitReasonFinalizerWait = 16"
definition waitReasonForceGCIdle :: waitReason where "waitReasonForceGCIdle = 17"
definition waitReasonSemacquire :: waitReason where "waitReasonSemacquire = 18"
definition waitReasonSleep :: waitReason where "waitReasonSleep = 19"
definition waitReasonSyncCondWait :: waitReason where "waitReasonSyncCondWait = 20"
definition waitReasonTimerGoroutineIdle :: waitReason where "waitReasonTimerGoroutineIdle = 21"
definition waitReasonTraceReaderBlocked :: waitReason where "waitReasonTraceReaderBlocked = 22"
definition waitReasonWaitForGCCycle :: waitReason where "waitReasonWaitForGCCycle = 23"
definition waitReasonGCWorkerIdle :: waitReason where "waitReasonGCWorkerIdle = 24"
definition waitReasonPreempted :: waitReason where "waitReasonPreempted = 25"
definition waitReasonDebugCall :: waitReason where "waitReasonDebugCall = 26"

lemmas waitReason_defs =
  waitReasonZero_def waitReasonGCAssistMarking_def waitReasonIOWait_def
  waitReasonChanReceiveNilChan_def waitReasonChanSendNilChan_def waitReasonDumpingHeap_def
  waitReasonGarbageCollection_def waitReasonGarbageCollectionScan_def waitReasonPanicWait_def
  waitReasonSelect_def waitReasonSelectNoCases_def waitReasonGCAssistWait_def
  waitReasonGCSweepWait_def waitReasonGCScavengeWait_def waitReasonChanReceive_def
  waitReasonChanSend_def waitReasonFinalizerWait_def waitReasonForceGCIdle_def
  waitReasonSemacquire_def waitReasonSleep_def waitReasonSyncCondWait_def
  waitReasonTimerGoroutineIdle_def waitReasonTraceReaderBlocked_def
  waitReasonWaitForGCCycle_def waitReasonGCWorkerIdle_def waitReasonPreempted_def
  waitReasonDebugCall_def

text \<open>
  A Go array literal \<^verbatim>\<open>[...]string{k: v, ...}\<close>: its length is one more than the largest
  key, and an index that no key names holds the zero value, the empty string. (Go rejects
  a literal with a repeated key, so the first match of \<open>map_of\<close> is the only one.)
\<close>

definition keyed_array_len :: "(waitReason \<times> string) list \<Rightarrow> nat" where
  "keyed_array_len kvs = fold (\<lambda>(k, v) n. max n (Suc (unat k))) kvs 0"

definition keyed_array :: "(waitReason \<times> string) list \<Rightarrow> string list" where
  "keyed_array kvs =
     map (\<lambda>i. case map_of (map (\<lambda>(k, v). (unat k, v)) kvs) i of None \<Rightarrow> [] | Some v \<Rightarrow> v)
       [0 ..< keyed_array_len kvs]"

definition waitReasonStrings :: "string list" where
  "waitReasonStrings = keyed_array
    [(waitReasonZero, ''''),
     (waitReasonGCAssistMarking, ''GC assist marking''),
     (waitReasonIOWait, ''IO wait''),
     (waitReasonChanReceiveNilChan, ''chan receive (nil chan)''),
     (waitReasonChanSendNilChan, ''chan send (nil chan)''),
     (waitReasonDumpingHeap, ''dumping heap''),
     (waitReasonGarbageCollection, ''garbage collection''),
     (waitReasonGarbageCollectionScan, ''garbage collection scan''),
     (waitReasonPanicWait, ''panicwait''),
     (waitReasonSelect, ''select''),
     (waitReasonSelectNoCases, ''select (no cases)''),
     (waitReasonGCAssistWait, ''GC assist wait''),
     (waitReasonGCSweepWait, ''GC sweep wait''),
     (waitReasonGCScavengeWait, ''GC scavenge wait''),
     (waitReasonChanReceive, ''chan receive''),
     (waitReasonChanSend, ''chan send''),
     (waitReasonFinalizerWait, ''finalizer wait''),
     (waitReasonForceGCIdle, ''force gc (idle)''),
     (waitReasonSemacquire, ''semacquire''),
     (waitReasonSleep, ''sleep''),
     (waitReasonSyncCondWait, ''sync.Cond.Wait''),
     (waitReasonTimerGoroutineIdle, ''timer goroutine (idle)''),
     (waitReasonTraceReaderBlocked, ''trace reader (blocked)''),
     (waitReasonWaitForGCCycle, ''wait for GC cycle''),
     (waitReasonGCWorkerIdle, ''GC worker (idle)''),
     (waitReasonPreempted, ''preempted''),
     (waitReasonDebugCall, ''debug call'')]"

text \<open>A read of an array or slice outside its bounds is a run-time panic in Go.\<close>

datatype panic = IndexOutOfRange

definition index :: "'a list \<Rightarrow> int \<Rightarrow> panic + 'a" where
  "index xs i = (if 0 \<le> i \<and> i < int (length xs) then Inr (xs ! nat i) else Inl IndexOutOfRange)"

text \<open>
  \<^verbatim>\<open>func (w waitReason) String() string\<close>. The conversion
  \<^verbatim>\<open>waitReason(len(waitReasonStrings))\<close> is \<open>of_nat\<close> at eight bits.
\<close>

definition waitReason_String :: "waitReason \<Rightarrow> panic + string" where
  "waitReason_String w =
     (if w < 0 \<or> w \<ge> of_nat (length waitReasonStrings)
      then Inr ''unknown wait reason''
      else index waitReasonStrings (uint w))"

subsection \<open>The local run queue of a P\<close>

text \<open>
  \<^verbatim>\<open>type guintptr uintptr\<close>, at the width of a 64-bit target; a nil reference is 0. Of the
  fields of \<^verbatim>\<open>type p struct\<close> the record keeps the four of the run queue:
  \<^verbatim>\<open>runqhead uint32\<close>, \<^verbatim>\<open>runqtail uint32\<close>, \<^verbatim>\<open>runq [256]guintptr\<close> and
  \<^verbatim>\<open>runnext guintptr\<close>. The array is a list.
\<close>

type_synonym uintptr = "64 word"
type_synonym guintptr = uintptr

record p =
  runqhead :: uint32
  runqtail :: uint32
  runq :: "guintptr list"
  runnext :: guintptr

text \<open>\<^verbatim>\<open>len(p.runq)\<close>, from the array type \<^verbatim>\<open>[256]guintptr\<close>.\<close>

definition runq_len :: nat where "runq_len = 256"

text \<open>A new token: the zero value of the four fields.\<close>

definition p_zero :: p where
  "p_zero = \<lparr>runqhead = 0, runqtail = 0, runq = replicate runq_len 0, runnext = 0\<rparr>"

text \<open>
  Modelled from the spec: the slot of the circular array that a head or tail index names.
  The functions that use the queue are in proc.go, which is not among the sources; the spec
  (3, Resource Token) describes a fixed-capacity circular queue of head and tail indices
  over a bounded array. The indices run freely through \<^verbatim>\<open>uint32\<close> and are reduced modulo
  the length of the array.
\<close>

definition runq_slot :: "uint32 \<Rightarrow> nat" where
  "runq_slot i = unat i mod runq_len"

text \<open>
  Modelled from the spec: the push onto a full queue (\<^verbatim>\<open>runqputslow\<close> of proc.go, not among
  the sources). Spec 4.3: pushing a task to a full local queue spills half the queue,
  including the new task and in FIFO order, to the global queue. The result is the token
  and the batch that goes to the global queue: the older half of the queue, oldest first,
  and the new task behind it.
\<close>

definition runqputslow :: "p \<Rightarrow> guintptr \<Rightarrow> p \<times> guintptr list" where
  "runqputslow pp gp =
     (let h = runqhead pp; n = runq_len div 2 in
      (pp\<lparr>runqhead := h + of_nat n\<rparr>,
       map (\<lambda>i. runq pp ! runq_slot (h + of_nat i)) [0 ..< n] @ [gp]))"

text \<open>
  Modelled from the spec: the push to the tail of the local queue (part of \<^verbatim>\<open>runqput\<close> of
  proc.go, not among the sources). The queue is full when \<open>runqtail - runqhead\<close> reaches
  the length of the array (so says the comment on \<^verbatim>\<open>runqtail\<close> in runtime2.go too); then
  half of it is spilled. The second component is the batch for the global queue, empty
  when nothing is spilled.
\<close>

definition runqput_tail :: "p \<Rightarrow> guintptr \<Rightarrow> p \<times> guintptr list" where
  "runqput_tail pp gp =
     (let h = runqhead pp; t = runqtail pp in
      if t - h < of_nat runq_len
      then (pp\<lparr>runq := (runq pp)[runq_slot t := gp], runqtail := t + 1\<rparr>, [])
      else runqputslow pp gp)"

text \<open>
  Modelled from the spec: the push of a runnable task (\<^verbatim>\<open>runqput\<close> of proc.go, not among the
  sources). With \<open>next\<close> the task is one that the running task has just made runnable and
  goes to the fast-path slot (spec 4.3; the comment on \<^verbatim>\<open>runnext\<close> in runtime2.go).
  The spec does not say what becomes of a task that the slot already holds; it promises
  that no task is lost (1), so the displaced task is pushed to the tail like any other.
  Without \<open>next\<close> the task goes to the tail.
\<close>

definition runqput :: "p \<Rightarrow> guintptr \<Rightarrow> bool \<Rightarrow> p \<times> guintptr list" where
  "runqput pp gp next =
     (if next then
        (let old = runnext pp; pp' = pp\<lparr>runnext := gp\<rparr> in
         if old = 0 then (pp', []) else runqput_tail pp' old)
      else runqput_tail pp gp)"

text \<open>
  Modelled from the spec: the pop from the local queue (\<^verbatim>\<open>runqget\<close> of proc.go, not among
  the sources), after the dequeue order of the spec (4.3): 1. the fast-path slot, if
  occupied; 2. the local queue, FIFO. \<open>None\<close> means that the token has no local work.
\<close>

definition runqget :: "p \<Rightarrow> (guintptr \<times> p) option" where
  "runqget pp =
     (if runnext pp \<noteq> 0 then Some (runnext pp, pp\<lparr>runnext := 0\<rparr>)
      else let h = runqhead pp; t = runqtail pp in
        if t = h then None
        else Some (runq pp ! runq_slot h, pp\<lparr>runqhead := h + 1\<rparr>))"

text \<open>
  Modelled from the spec: the life of a token's queue, from a new token through any
  sequence of pushes and pops (made by the scheduler of proc.go, not among the sources).
  A pop from a token without local work leaves it as it is.
\<close>

datatype runq_op = Put guintptr bool | Get

fun runq_apply :: "p \<Rightarrow> runq_op \<Rightarrow> p" where
  "runq_apply pp (Put gp next) = fst (runqput pp gp next)"
| "runq_apply pp Get = (case runqget pp of None \<Rightarrow> pp | Some (gp, pp') \<Rightarrow> pp')"

definition runq_run :: "runq_op list \<Rightarrow> p" where
  "runq_run ops = foldl runq_apply p_zero ops"

text \<open>
  What the queue holds, oldest first: the slots from the head index up to the tail index.
  The subtraction wraps around, as on \<^verbatim>\<open>uint32\<close>.
\<close>

definition runq_size :: "p \<Rightarrow> nat" where
  "runq_size pp = unat (runqtail pp - runqhead pp)"

definition runq_contents :: "p \<Rightarrow> guintptr list" where
  "runq_contents pp = map (\<lambda>i. runq pp ! runq_slot (runqhead pp + of_nat i)) [0 ..< runq_size pp]"

definition runq_ok :: "p \<Rightarrow> bool" where
  "runq_ok pp = (length (runq pp) = runq_len \<and> runq_size pp \<le> runq_len)"

text \<open>
  The push in the words of the spec (4.3), on a FIFO list of at most 256 tasks: the task is
  appended, and a full list gives up its older half, with the new task behind it, to the
  global queue. The result is the list that stays and the batch that leaves.
\<close>

definition spec_push :: "guintptr list \<Rightarrow> guintptr \<Rightarrow> guintptr list \<times> guintptr list" where
  "spec_push q gp =
     (if length q < runq_len then (q @ [gp], [])
      else (drop (runq_len div 2) q, take (runq_len div 2) q @ [gp]))"

text \<open>Two pushes to the tail and one to the fast-path slot.\<close>

definition example_ops :: "runq_op list" where
  "example_ops = [Put 5 False, Put 7 False, Put 9 True]"

text \<open>As many pushes to the tail as the queue has slots.\<close>

definition example_full_ops :: "runq_op list" where
  "example_full_ops = map (\<lambda>g. Put g False) (replicate 256 3)"

subsection \<open>extendRandom\<close>



record extend_state =
  bytes :: "uint8 list"
  pos :: int
  writes :: "int list"








section \<open>The scan bit\<close>

lemma Gscan_disjoint:
  assumes "b < Gscan"
  shows "Gscan AND b = 0"
proof -
  from assms have "b < 2 ^ 12" by (simp add: Gscan_def)
  then have "b AND mask 12 = b" by (rule less_mask_eq)
  then have "Gscan AND b = Gscan AND (b AND mask 12)" by simp
  also have "\<dots> = b AND (mask 12 AND Gscan)" by (simp add: ac_simps)
  also have "mask 12 AND Gscan = 0" by (simp add: mask_eq_exp_minus_1 Gscan_def)
  finally show ?thesis by simp
qed

lemma scan_return_status_add:
  assumes "b < Gscan"
  shows "scan_return_status (Gscan + b) = b"
proof -
  from assms have z: "Gscan AND b = 0" by (rule Gscan_disjoint)
  then have "Gscan + b = Gscan OR b" by (rule disjunctive_add_eq_or)
  then have "(Gscan + b) AND NOT Gscan = (Gscan OR b) AND NOT Gscan" by simp
  also have "\<dots> = b AND NOT Gscan" by (simp add: bit.conj_disj_distrib2)
  also have "\<dots> = b AND NOT Gscan OR b AND Gscan" using z by (simp add: word_bw_comms)
  also have "\<dots> = b" by (simp flip: bit.conj_disj_distrib)
  finally show ?thesis by (simp add: scan_return_status_def)
qed

text \<open>
  C2, as the claim states it, fails: the scan bit also combines with the running status.
  \<^verbatim>\<open>_Gscanrunning\<close> is one of the five defined scan constants, it is the scan bit plus
  \<^verbatim>\<open>_Grunning\<close>, and masking the scan bit off gives \<^verbatim>\<open>_Grunning\<close> back.
\<close>

theorem Gscanrunning_has_running_base:
  "Gscanrunning \<in> set Gscan_statuses \<and> Gscanrunning = Gscan + Grunning
     \<and> scan_return_status Gscanrunning = Grunning"
  by (simp add: Gscan_statuses_def Gscanrunning_def scan_return_status_def Gscan_def
      Grunning_def)

text \<open>
  C2, amended: every defined scan constant is the scan bit plus one of the ten base
  statuses; that base is \<^verbatim>\<open>_Grunning\<close> for \<^verbatim>\<open>_Gscanrunning\<close> and for no other scan
  constant; and for every status \<open>b\<close> below the scan bit, masking the scan bit off
  \<open>Gscan + b\<close> (\<^verbatim>\<open>atomicstatus &^ _Gscan\<close>) gives exactly \<open>b\<close>.
\<close>

theorem Gscan_statuses_base:
  "(\<forall>s \<in> set Gscan_statuses. \<exists>b \<in> set G_statuses.
       s = Gscan + b \<and> (b = Grunning \<longleftrightarrow> s = Gscanrunning))
   \<and> (\<forall>b. b < Gscan \<longrightarrow> scan_return_status (Gscan + b) = b)"
proof (intro conjI ballI allI impI)
  fix s assume "s \<in> set Gscan_statuses"
  then consider "s = Gscanrunnable" | "s = Gscanrunning" | "s = Gscansyscall"
    | "s = Gscanwaiting" | "s = Gscanpreempted"
    by (auto simp: Gscan_statuses_def)
  then show "\<exists>b \<in> set G_statuses. s = Gscan + b \<and> (b = Grunning \<longleftrightarrow> s = Gscanrunning)"
  proof cases
    case 1
    then show ?thesis
      by (intro bexI [of _ Grunnable]) (simp_all add: G_statuses_def Gscan_status_defs G_status_defs)
  next
    case 2
    then show ?thesis
      by (intro bexI [of _ Grunning]) (simp_all add: G_statuses_def Gscan_status_defs G_status_defs)
  next
    case 3
    then show ?thesis
      by (intro bexI [of _ Gsyscall]) (simp_all add: G_statuses_def Gscan_status_defs G_status_defs)
  next
    case 4
    then show ?thesis
      by (intro bexI [of _ Gwaiting]) (simp_all add: G_statuses_def Gscan_status_defs G_status_defs)
  next
    case 5
    then show ?thesis
      by (intro bexI [of _ Gpreempted]) (simp_all add: G_statuses_def Gscan_status_defs G_status_defs)
  qed
next
  fix b :: uint32 assume "b < Gscan"
  then show "scan_return_status (Gscan + b) = b" by (rule scan_return_status_add)
qed

theorem Gscan_statuses_base_witness:
  "Gscanwaiting \<in> set Gscan_statuses
   \<and> (\<exists>b \<in> set G_statuses. Gscanwaiting = Gscan + b \<and> (b = Grunning \<longleftrightarrow> Gscanwaiting = Gscanrunning))
   \<and> Gwaiting < Gscan
   \<and> scan_return_status (Gscan + Gwaiting) = Gwaiting
   \<and> scan_return_status 0x1004 = 4"
proof -
  have m: "Gscanwaiting \<in> set Gscan_statuses" by (simp add: Gscan_statuses_def)
  have l: "Gwaiting < Gscan" by (simp add: Gwaiting_def Gscan_def)
  from Gscan_statuses_base have
    a: "\<forall>s \<in> set Gscan_statuses. \<exists>b \<in> set G_statuses.
          s = Gscan + b \<and> (b = Grunning \<longleftrightarrow> s = Gscanrunning)"
    and b: "\<forall>b. b < Gscan \<longrightarrow> scan_return_status (Gscan + b) = b" by blast+
  from a m have "\<exists>b \<in> set G_statuses. Gscanwaiting = Gscan + b \<and> (b = Grunning \<longleftrightarrow> Gscanwaiting = Gscanrunning)"
    by (rule bspec)
  moreover from b l have r: "scan_return_status (Gscan + Gwaiting) = Gwaiting" by blast
  moreover from r have "scan_return_status 0x1004 = 4" by (simp add: Gwaiting_def Gscan_def)
  ultimately show ?thesis using m l by blast
qed

section \<open>Wait reason strings\<close>

text \<open>The literal, evaluated: its keys are 0 to 26 in order, so no entry is a gap.\<close>

lemma waitReasonStrings_eq:
  "waitReasonStrings =
    [[], ''GC assist marking'', ''IO wait'', ''chan receive (nil chan)'',
     ''chan send (nil chan)'', ''dumping heap'', ''garbage collection'',
     ''garbage collection scan'', ''panicwait'', ''select'', ''select (no cases)'',
     ''GC assist wait'', ''GC sweep wait'', ''GC scavenge wait'', ''chan receive'',
     ''chan send'', ''finalizer wait'', ''force gc (idle)'', ''semacquire'', ''sleep'',
     ''sync.Cond.Wait'', ''timer goroutine (idle)'', ''trace reader (blocked)'',
     ''wait for GC cycle'', ''GC worker (idle)'', ''preempted'', ''debug call'']"
  by (simp add: waitReasonStrings_def keyed_array_def keyed_array_len_def waitReason_defs
      upt_rec [of _ "numeral n" for n] upt_rec [of _ "Suc n" for n])

lemma waitReasonStrings_length: "length waitReasonStrings = 27"
  by (simp add: waitReasonStrings_eq)

lemma index_in_range: "i < length xs \<Longrightarrow> index xs (int i) = Inr (xs ! i)"
  by (simp add: index_def)

text \<open>
  C9: \<^verbatim>\<open>waitReason.String\<close> returns for every \<^verbatim>\<open>waitReason\<close> value and never panics on
  the table index: for \<open>w\<close> below the table's length, 27, it returns the table's entry at
  \<open>w\<close>, and for every other value the string "unknown wait reason".
\<close>

theorem waitReason_String_total:
  "waitReason_String w =
     Inr (if unat w < length waitReasonStrings then waitReasonStrings ! unat w
          else ''unknown wait reason'')"
proof (cases "unat w < length waitReasonStrings")
  case True
  then have "unat w < 27" by (simp add: waitReasonStrings_length)
  then have "w < 27" by (simp add: word_less_nat_alt)
  then have "\<not> (w < 0 \<or> w \<ge> of_nat (length waitReasonStrings))"
    by (simp add: waitReasonStrings_length not_le)
  then have "waitReason_String w = index waitReasonStrings (uint w)"
    by (simp add: waitReason_String_def)
  also have "uint w = int (unat w)" by simp
  finally show ?thesis using True by (simp only: index_in_range if_True)
next
  case False
  then have "\<not> unat w < 27" by (simp add: waitReasonStrings_length)
  then have "w \<ge> 27" by (simp add: word_le_nat_alt)
  then have "w \<ge> of_nat (length waitReasonStrings)" by (simp add: waitReasonStrings_length)
  then show ?thesis using False by (simp add: waitReason_String_def)
qed

theorem waitReason_String_total_witness:
  "waitReason_String waitReasonZero = Inr []
   \<and> waitReason_String waitReasonSleep = Inr ''sleep''
   \<and> waitReason_String waitReasonDebugCall = Inr ''debug call''
   \<and> waitReason_String 27 = Inr ''unknown wait reason''
   \<and> waitReason_String 255 = Inr ''unknown wait reason''"
  using waitReason_String_total [of waitReasonZero] waitReason_String_total [of waitReasonSleep]
    waitReason_String_total [of waitReasonDebugCall]
    waitReason_String_total [of 27] waitReason_String_total [of 255]
  by (simp add: waitReasonStrings_eq waitReason_defs)

section \<open>extendRandom\<close>







section \<open>The local run queue\<close>

text \<open>
  The slot of an index: \<open>2 ^ 32\<close> is a multiple of 256, so the wrap-around of \<^verbatim>\<open>uint32\<close>
  does not disturb the order of the slots.
\<close>

lemma runq_slot_add: "runq_slot (h + of_nat i) = (unat h + i) mod runq_len"
proof -
  have "unat (h + of_nat i) = (unat h + i mod 2 ^ 32) mod 2 ^ 32"
    by (simp add: unat_word_ariths unat_of_nat)
  also have "\<dots> = (unat h + i) mod 2 ^ 32" by (simp add: mod_simps)
  finally have "runq_slot (h + of_nat i) = (unat h + i) mod 2 ^ 32 mod 256"
    by (simp add: runq_slot_def runq_len_def)
  also have "\<dots> = (unat h + i) mod 256"
    by (rule mod_mod_cancel) simp
  finally show ?thesis by (simp add: runq_len_def)
qed

lemma runq_slot_less: "runq_slot i < runq_len"
  by (simp add: runq_slot_def runq_len_def)

lemma runq_slot_distinct:
  assumes "i < j" and "j < runq_len"
  shows "runq_slot (h + of_nat i) \<noteq> runq_slot (h + of_nat j)"
proof
  assume "runq_slot (h + of_nat i) = runq_slot (h + of_nat j)"
  then have "(unat h + i) mod 256 = (unat h + j) mod 256"
    by (simp add: runq_slot_add runq_len_def)
  then have "((unat h + j) - (unat h + i)) mod 256 = 0"
    using assms(1) by (metis add_le_cancel_left less_imp_le_nat mod_eq_dvd_iff_nat mod_0_imp_dvd dvd_imp_mod_0)
  then have "(j - i) mod 256 = 0" by simp
  moreover have "0 < j - i" "j - i < 256" using assms by (simp_all add: runq_len_def)
  ultimately show False by simp
qed

lemma tail_eq: "runqtail pp = runqhead pp + of_nat (runq_size pp)"
  by (simp add: runq_size_def)

lemma length_runq_contents: "length (runq_contents pp) = runq_size pp"
  by (simp add: runq_contents_def)


text \<open>A push to the tail of a queue with room appends the task.\<close>

lemma runqput_tail_room:
  assumes ok: "runq_ok pp" and lt: "runq_size pp < runq_len"
  shows "snd (runqput_tail pp gp) = [] \<and> runq_ok (fst (runqput_tail pp gp))
           \<and> runq_contents (fst (runqput_tail pp gp)) = runq_contents pp @ [gp]
           \<and> runnext (fst (runqput_tail pp gp)) = runnext pp"
proof -
  let ?n = "runq_size pp"
  let ?pp = "pp\<lparr>runq := (runq pp)[runq_slot (runqtail pp) := gp], runqtail := runqtail pp + 1\<rparr>"
  have c: "runqtail pp - runqhead pp < of_nat runq_len"
    using lt by (simp add: runq_size_def runq_len_def word_less_nat_alt)
  then have e: "runqput_tail pp gp = (?pp, [])" by (simp add: runqput_tail_def Let_def)
  have a: "runqtail pp + 1 - runqhead pp = (runqtail pp - runqhead pp) + 1" by simp
  have "runq_size ?pp = unat (runqtail pp + 1 - runqhead pp)" by (simp add: runq_size_def)
  also have "\<dots> = unat ((runqtail pp - runqhead pp) + 1)" by (simp only: a)
  also have "\<dots> = ?n + 1"
    using lt unfolding runq_size_def runq_len_def by (simp add: unat_word_ariths)
  finally have sz: "runq_size ?pp = ?n + 1" .
  have len: "length (runq pp) = runq_len" using ok by (simp add: runq_ok_def)
  have ok': "runq_ok ?pp" using ok lt sz by (simp add: runq_ok_def)
  have "runq_contents ?pp = runq_contents pp @ [gp]"
  proof (rule nth_equalityI)
    show "length (runq_contents ?pp) = length (runq_contents pp @ [gp])"
      by (simp add: length_runq_contents sz)
  next
    fix i assume "i < length (runq_contents ?pp)"
    then have i: "i < ?n + 1" by (simp add: length_runq_contents sz)
    show "runq_contents ?pp ! i = (runq_contents pp @ [gp]) ! i"
    proof (cases "i < ?n")
      case True
      then have "runq_slot (runqhead pp + of_nat i) \<noteq> runq_slot (runqhead pp + of_nat ?n)"
        using lt by (intro runq_slot_distinct)
      then have "runq_slot (runqhead pp + of_nat i) \<noteq> runq_slot (runqtail pp)"
        by (simp flip: tail_eq)
      then show ?thesis using True i
        by (simp add: runq_contents_def sz nth_append)
    next
      case False
      then have "i = ?n" using i by simp
      then show ?thesis using len unfolding runq_contents_def sz
        by (simp add: nth_append runq_slot_less flip: tail_eq)
    qed
  qed
  then show ?thesis using ok' by (simp add: e)
qed

text \<open>
  A push to the tail of a full queue moves the head index over the older half, which
  leaves with the new task.
\<close>

lemma runqput_tail_full:
  assumes ok: "runq_ok pp" and full: "runq_size pp = runq_len"
  shows "snd (runqput_tail pp gp) = take (runq_len div 2) (runq_contents pp) @ [gp]
           \<and> runq_ok (fst (runqput_tail pp gp))
           \<and> runq_contents (fst (runqput_tail pp gp)) = drop (runq_len div 2) (runq_contents pp)
           \<and> runnext (fst (runqput_tail pp gp)) = runnext pp"
proof -
  let ?pp = "pp\<lparr>runqhead := runqhead pp + 128\<rparr>"
  let ?b = "map (\<lambda>i. runq pp ! runq_slot (runqhead pp + of_nat i)) [0 ..< 128] @ [gp]"
  have half: "runq_len div 2 = 128" by (simp add: runq_len_def)
  from full have u: "unat (runqtail pp - runqhead pp) = 256"
    by (simp add: runq_size_def runq_len_def)
  then have "\<not> runqtail pp - runqhead pp < of_nat runq_len"
    by (simp add: word_less_nat_alt runq_len_def)
  then have e: "runqput_tail pp gp = (?pp, ?b)"
    by (simp add: runqput_tail_def runqputslow_def Let_def half)
  have a: "runqtail pp - (runqhead pp + 128) = (runqtail pp - runqhead pp) - 128" by simp
  have "runq_size ?pp = unat (runqtail pp - (runqhead pp + 128))"
    by (simp add: runq_size_def)
  also have "\<dots> = unat ((runqtail pp - runqhead pp) - 128)" by (simp only: a)
  also have "\<dots> = 128" using u by (simp add: unat_sub word_le_nat_alt)
  finally have sz: "runq_size ?pp = 128" .
  have sz0: "runq_size pp = 256" using full by (simp add: runq_len_def)
  have b: "?b = take 128 (runq_contents pp) @ [gp]"
    unfolding runq_contents_def sz0 by (simp add: take_map)
  have c: "runq_contents ?pp = drop 128 (runq_contents pp)"
  proof (rule nth_equalityI)
    show "length (runq_contents ?pp) = length (drop 128 (runq_contents pp))"
      by (simp add: length_runq_contents sz sz0)
  next
    fix i assume "i < length (runq_contents ?pp)"
    then have i: "i < 128" by (simp add: length_runq_contents sz)
    have c: "runqhead pp + 128 + of_nat i = runqhead pp + of_nat (128 + i)" by simp
    have "runq_contents ?pp ! i = runq pp ! runq_slot (runqhead pp + 128 + of_nat i)"
      using i by (simp add: runq_contents_def sz)
    also have "\<dots> = runq pp ! runq_slot (runqhead pp + of_nat (128 + i))" by (simp only: c)
    also have "\<dots> = runq_contents pp ! (128 + i)"
      using i by (simp add: runq_contents_def sz0 del: of_nat_add)
    also have "\<dots> = drop 128 (runq_contents pp) ! i"
      using i by (simp add: length_runq_contents sz0)
    finally show "runq_contents ?pp ! i = drop 128 (runq_contents pp) ! i" .
  qed
  have k: "runq_ok ?pp" using ok by (simp add: runq_ok_def sz runq_len_def)
  show ?thesis unfolding half e using b c k by simp
qed

lemma runqput_tail_spec:
  assumes "runq_ok pp"
  shows "runq_ok (fst (runqput_tail pp gp))
     \<and> (runq_contents (fst (runqput_tail pp gp)), snd (runqput_tail pp gp))
           = spec_push (runq_contents pp) gp
     \<and> runnext (fst (runqput_tail pp gp)) = runnext pp"
proof (cases "runq_size pp < runq_len")
  case True
  from runqput_tail_room [OF assms True, of gp] True show ?thesis
    by (simp add: spec_push_def length_runq_contents)
next
  case False
  with assms have full: "runq_size pp = runq_len" by (simp add: runq_ok_def)
  from runqput_tail_full [OF assms full, of gp] full show ?thesis
    by (simp add: spec_push_def length_runq_contents)
qed

text \<open>The pop: the fast-path slot first, then the head of the queue.\<close>

lemma runqget_next:
  assumes "runnext pp \<noteq> 0"
  shows "\<exists>pp'. runqget pp = Some (runnext pp, pp') \<and> runnext pp' = 0
           \<and> runq_contents pp' = runq_contents pp \<and> (runq_ok pp \<longrightarrow> runq_ok pp')"
  using assms by (simp add: runqget_def runq_contents_def runq_size_def runq_ok_def)

lemma runq_size_0_iff: "runq_size pp = 0 \<longleftrightarrow> runqtail pp = runqhead pp"
  by (simp add: runq_size_def unat_eq_0)

lemma runqget_empty:
  assumes "runnext pp = 0" and "runq_contents pp = []"
  shows "runqget pp = None"
proof -
  from assms(2) have "runq_size pp = 0" by (simp flip: length_runq_contents)
  then show ?thesis using assms(1) by (simp add: runqget_def runq_size_0_iff)
qed

lemma runqget_fifo:
  assumes "runnext pp = 0" and ne: "runq_contents pp \<noteq> []"
  shows "\<exists>pp'. runqget pp = Some (hd (runq_contents pp), pp') \<and> runnext pp' = 0
           \<and> runq_contents pp' = tl (runq_contents pp) \<and> (runq_ok pp \<longrightarrow> runq_ok pp')"
proof -
  let ?n = "runq_size pp"
  let ?pp = "pp\<lparr>runqhead := runqhead pp + 1\<rparr>"
  from ne have pos: "0 < ?n" by (simp flip: length_runq_contents)
  then have neq: "runqtail pp \<noteq> runqhead pp" by (simp flip: runq_size_0_iff)
  have hd: "hd (runq_contents pp) = runq pp ! runq_slot (runqhead pp)"
    using pos by (simp add: runq_contents_def hd_map upt_conv_Cons)
  have e: "runqget pp = Some (hd (runq_contents pp), ?pp)"
    using assms(1) neq by (simp add: runqget_def hd Let_def)
  have a: "runqtail pp - (runqhead pp + 1) = (runqtail pp - runqhead pp) - 1" by simp
  have "runq_size ?pp = unat (runqtail pp - (runqhead pp + 1))" by (simp add: runq_size_def)
  also have "\<dots> = unat ((runqtail pp - runqhead pp) - 1)" by (simp only: a)
  also have "\<dots> = ?n - 1"
    using neq unfolding runq_size_def by (intro unat_minus_one) simp
  finally have sz: "runq_size ?pp = ?n - 1" .
  have "runq_contents ?pp = tl (runq_contents pp)"
  proof (rule nth_equalityI)
    show "length (runq_contents ?pp) = length (tl (runq_contents pp))"
      by (simp add: length_runq_contents sz)
  next
    fix i assume "i < length (runq_contents ?pp)"
    then have i: "i < ?n - 1" by (simp add: length_runq_contents sz)
    have a: "runqhead pp + 1 + of_nat i = runqhead pp + of_nat (Suc i)" by simp
    have "runq_contents ?pp ! i = runq pp ! runq_slot (runqhead pp + 1 + of_nat i)"
      using i by (simp add: runq_contents_def sz)
    also have "\<dots> = runq pp ! runq_slot (runqhead pp + of_nat (Suc i))" by (simp only: a)
    also have "\<dots> = runq_contents pp ! Suc i"
    proof -
      have "Suc i < ?n" using i by simp
      then show ?thesis by (simp add: runq_contents_def del: of_nat_Suc)
    qed
    also have "\<dots> = tl (runq_contents pp) ! i"
      using i by (simp add: nth_tl length_runq_contents)
    finally show "runq_contents ?pp ! i = tl (runq_contents pp) ! i" .
  qed
  moreover have "runq_ok pp \<longrightarrow> runq_ok ?pp" using sz by (auto simp: runq_ok_def)
  ultimately show ?thesis using e assms(1) by simp
qed



text \<open>A new token has an empty queue of 256 slots, and every push and pop keeps the bound.\<close>

lemma runq_ok_zero: "runq_ok p_zero"
  by (simp add: runq_ok_def p_zero_def runq_size_def)

lemma runq_contents_zero: "runq_contents p_zero = []"
  by (simp add: runq_contents_def p_zero_def runq_size_def)

lemma runqput_spec:
  assumes "runq_ok pp"
  shows "runq_ok (fst (runqput pp gp next))
     \<and> (runq_contents (fst (runqput pp gp False)), snd (runqput pp gp False))
           = spec_push (runq_contents pp) gp
     \<and> runnext (fst (runqput pp gp False)) = runnext pp
     \<and> runnext (fst (runqput pp gp True)) = gp
     \<and> (runq_contents (fst (runqput pp gp True)), snd (runqput pp gp True))
           = (if runnext pp = 0 then (runq_contents pp, [])
              else spec_push (runq_contents pp) (runnext pp))"
proof -
  let ?pp = "pp\<lparr>runnext := gp\<rparr>"
  have ok': "runq_ok ?pp" and c': "runq_contents ?pp = runq_contents pp"
    using assms by (simp_all add: runq_ok_def runq_size_def runq_contents_def)
  note t = runqput_tail_spec [OF assms, of gp]
  note t' = runqput_tail_spec [OF ok', of "runnext pp"]
  have f: "runqput pp gp False = runqput_tail pp gp" by (simp add: runqput_def)
  have n: "runqput pp gp True =
      (if runnext pp = 0 then (?pp, []) else runqput_tail ?pp (runnext pp))"
    by (simp add: runqput_def Let_def)
  have 1: "runq_ok (fst (runqput pp gp next))"
    using t t' ok' by (cases "next") (simp_all add: f n)
  have 2: "(runq_contents (fst (runqput pp gp False)), snd (runqput pp gp False))
           = spec_push (runq_contents pp) gp" using t by (simp add: f)
  have 3: "runnext (fst (runqput pp gp False)) = runnext pp" using t by (simp add: f)
  have 4: "runnext (fst (runqput pp gp True)) = gp" using t' by (simp add: n)
  have 5: "(runq_contents (fst (runqput pp gp True)), snd (runqput pp gp True))
           = (if runnext pp = 0 then (runq_contents pp, [])
              else spec_push (runq_contents pp) (runnext pp))"
    using t' c' by (simp add: n)
  from 1 2 3 4 5 show ?thesis by (intro conjI)
qed

lemma runq_apply_inv:
  assumes ok: "runq_ok pp" and nx: "runnext pp \<noteq> 0 \<longrightarrow> Put (runnext pp) True \<in> set ops"
  shows "runq_ok (runq_apply pp op)
     \<and> (runnext (runq_apply pp op) \<noteq> 0 \<longrightarrow>
           Put (runnext (runq_apply pp op)) True \<in> set (ops @ [op]))"
proof (cases op)
  case (Put gp "next")
  note t = runqput_spec [OF ok, of gp "next"]
  show ?thesis
  proof (cases "next")
    case True
    with t Put show ?thesis by simp
  next
    case False
    with t Put nx show ?thesis by simp
  qed
next
  case Get
  show ?thesis
  proof (cases "runnext pp = 0")
    case False
    from runqget_next [OF False] ok Get show ?thesis by auto
  next
    case True
    show ?thesis
    proof (cases "runq_contents pp = []")
      case True
      with \<open>runnext pp = 0\<close> have "runqget pp = None" by (rule runqget_empty)
      then show ?thesis using ok nx Get \<open>runnext pp = 0\<close> by simp
    next
      case False
      from runqget_fifo [OF \<open>runnext pp = 0\<close> False] ok Get show ?thesis by auto
    qed
  qed
qed

lemma runq_run_snoc: "runq_run (ops @ [op]) = runq_apply (runq_run ops) op"
  by (simp add: runq_run_def)

lemma runq_run_inv:
  "runq_ok (runq_run ops)
     \<and> (runnext (runq_run ops) \<noteq> 0 \<longrightarrow> Put (runnext (runq_run ops)) True \<in> set ops)"
proof (induction ops rule: rev_induct)
  case Nil
  then show ?case by (simp add: runq_run_def runq_ok_zero) (simp add: p_zero_def)
next
  case (snoc op ops)
  then show ?case unfolding runq_run_snoc by (intro runq_apply_inv) simp_all
qed

text \<open>Up to 256 pushes to the tail of a new token fill the queue in order.\<close>

lemma runq_run_puts:
  "length gs \<le> runq_len \<Longrightarrow>
   runq_contents (runq_run (map (\<lambda>g. Put g False) gs)) = gs
     \<and> runnext (runq_run (map (\<lambda>g. Put g False) gs)) = 0"
proof (induction gs rule: rev_induct)
  case Nil
  then show ?case by (simp add: runq_run_def runq_contents_zero) (simp add: p_zero_def)
next
  case (snoc g gs)
  let ?pp = "runq_run (map (\<lambda>g. Put g False) gs)"
  from snoc have ih: "runq_contents ?pp = gs" "runnext ?pp = 0" and l: "length gs < runq_len"
    by simp_all
  have ok: "runq_ok ?pp" using runq_run_inv by blast
  from runqput_spec [OF ok, of g False] ih l show ?case
    by (simp add: runq_run_snoc spec_push_def)
qed

text \<open>
  C6: a token's local run queue is an array of 256 task references with a head and a tail
  index, and a single slot \<open>runnext\<close> beside it. For every token \<open>pp\<close> reached from a new
  token by pushes and pops: the array has 256 slots and the queue holds at most 256 tasks;
  a task in \<open>runnext\<close> is one that was pushed as just made runnable by the running task;
  a pop takes the task in \<open>runnext\<close> first and leaves the queue proper as it was, and
  with \<open>runnext\<close> empty it takes the oldest task of the queue; a push to the tail is the
  push of the spec on the FIFO list (appended, or the older half spilled with the new
  task when the queue is full); a push to \<open>runnext\<close> puts the task there and sends a
  displaced task to the tail.
\<close>

theorem runq_bounded_fifo_with_runnext:
  assumes "pp = runq_run ops"
  shows "length (runq pp) = 256 \<and> length (runq_contents pp) \<le> 256
     \<and> (runnext pp \<noteq> 0 \<longrightarrow> Put (runnext pp) True \<in> set ops)
     \<and> (runnext pp \<noteq> 0 \<longrightarrow>
          (\<exists>pp'. runqget pp = Some (runnext pp, pp') \<and> runnext pp' = 0
             \<and> runq_contents pp' = runq_contents pp))
     \<and> (runnext pp = 0 \<and> runq_contents pp \<noteq> [] \<longrightarrow>
          (\<exists>pp'. runqget pp = Some (hd (runq_contents pp), pp') \<and> runnext pp' = 0
             \<and> runq_contents pp' = tl (runq_contents pp)))
     \<and> (runnext pp = 0 \<and> runq_contents pp = [] \<longrightarrow> runqget pp = None)
     \<and> (runq_contents (fst (runqput pp gp False)), snd (runqput pp gp False))
           = spec_push (runq_contents pp) gp
     \<and> runnext (fst (runqput pp gp False)) = runnext pp
     \<and> runnext (fst (runqput pp gp True)) = gp
     \<and> (runq_contents (fst (runqput pp gp True)), snd (runqput pp gp True))
           = (if runnext pp = 0 then (runq_contents pp, [])
              else spec_push (runq_contents pp) (runnext pp))"
proof -
  from runq_run_inv [of ops] assms have ok: "runq_ok pp"
    and nx: "runnext pp \<noteq> 0 \<longrightarrow> Put (runnext pp) True \<in> set ops" by simp_all
  have 1: "length (runq pp) = 256" "length (runq_contents pp) \<le> 256"
    using ok by (simp_all add: runq_ok_def runq_len_def length_runq_contents)
  have 2: "runnext pp \<noteq> 0 \<longrightarrow>
          (\<exists>pp'. runqget pp = Some (runnext pp, pp') \<and> runnext pp' = 0
             \<and> runq_contents pp' = runq_contents pp)"
    using runqget_next [of pp] by blast
  have 3: "runnext pp = 0 \<and> runq_contents pp \<noteq> [] \<longrightarrow>
          (\<exists>pp'. runqget pp = Some (hd (runq_contents pp), pp') \<and> runnext pp' = 0
             \<and> runq_contents pp' = tl (runq_contents pp))"
    using runqget_fifo [of pp] by blast
  have 4: "runnext pp = 0 \<and> runq_contents pp = [] \<longrightarrow> runqget pp = None"
    using runqget_empty [of pp] by blast
  note t = runqput_spec [OF ok, of gp False]
  show ?thesis
    using 1 nx 2 3 4 t [THEN conjunct2] by (intro conjI) simp_all
qed

text \<open>The example, evaluated.\<close>

lemma example_run:
  "runq_contents (runq_run example_ops) = [5, 7]" "runnext (runq_run example_ops) = 9"
  by (simp_all add: example_ops_def runq_run_def runqput_def runqput_tail_def p_zero_def
      runq_contents_def runq_size_def runq_slot_def runq_len_def
      upt_rec [of _ "numeral n" for n] upt_rec [of _ "Suc n" for n])

lemma example_full_run: "runq_contents (runq_run example_full_ops) = replicate 256 3"
  unfolding example_full_ops_def using runq_run_puts [of "replicate 256 3"]
  by (simp only: length_replicate runq_len_def order_refl)

theorem runq_witness:
  "runq_contents (runq_run example_ops) = [5, 7] \<and> runnext (runq_run example_ops) = 9
   \<and> runnext (runq_run example_ops) \<noteq> 0 \<and> Put 9 True \<in> set example_ops
   \<and> (\<exists>pp'. runqget (runq_run example_ops) = Some (9, pp') \<and> runnext pp' = 0
         \<and> runq_contents pp' = [5, 7])
   \<and> (runq_contents (fst (runqput (runq_run example_ops) 11 False)),
       snd (runqput (runq_run example_ops) 11 False)) = ([5, 7, 11], [])
   \<and> runnext (fst (runqput (runq_run example_ops) 11 True)) = 11
   \<and> (runq_contents (fst (runqput (runq_run example_ops) 11 True)),
       snd (runqput (runq_run example_ops) 11 True)) = ([5, 7, 9], [])
   \<and> runq_contents (runq_run example_full_ops) = replicate 256 3
   \<and> (runq_contents (fst (runqput (runq_run example_full_ops) 4 False)),
       snd (runqput (runq_run example_full_ops) 4 False))
       = (replicate 128 3, replicate 128 3 @ [4])"
proof -
  let ?pp = "runq_run example_ops"
  let ?full = "runq_run example_full_ops"
  have n: "runnext ?pp \<noteq> 0" by (simp add: example_run)
  have m: "Put 9 True \<in> set example_ops" by (simp add: example_ops_def)
  note t = runq_bounded_fifo_with_runnext [OF refl, of example_ops 11]
  from t have "runnext ?pp \<noteq> 0 \<longrightarrow>
          (\<exists>pp'. runqget ?pp = Some (runnext ?pp, pp') \<and> runnext pp' = 0
             \<and> runq_contents pp' = runq_contents ?pp)" by (elim conjE)
  with n have g: "\<exists>pp'. runqget ?pp = Some (9, pp') \<and> runnext pp' = 0
         \<and> runq_contents pp' = [5, 7]" by (simp add: example_run)
  from t have "(runq_contents (fst (runqput ?pp 11 False)), snd (runqput ?pp 11 False))
           = spec_push (runq_contents ?pp) 11" by (elim conjE)
  then have pf: "(runq_contents (fst (runqput ?pp 11 False)), snd (runqput ?pp 11 False))
           = ([5, 7, 11], [])" by (simp add: example_run spec_push_def runq_len_def)
  from t have pn: "runnext (fst (runqput ?pp 11 True)) = 11" by (elim conjE)
  from t have "(runq_contents (fst (runqput ?pp 11 True)), snd (runqput ?pp 11 True))
           = (if runnext ?pp = 0 then (runq_contents ?pp, [])
              else spec_push (runq_contents ?pp) (runnext ?pp))" by (elim conjE)
  then have pt: "(runq_contents (fst (runqput ?pp 11 True)), snd (runqput ?pp 11 True))
           = ([5, 7, 9], [])" by (simp add: example_run spec_push_def runq_len_def)
  note u = runq_bounded_fifo_with_runnext [OF refl, of example_full_ops 4]
  from u have "(runq_contents (fst (runqput ?full 4 False)), snd (runqput ?full 4 False))
           = spec_push (runq_contents ?full) 4" by (elim conjE)
  then have s: "(runq_contents (fst (runqput ?full 4 False)), snd (runqput ?full 4 False))
           = (replicate 128 3, replicate 128 3 @ [4])"
    by (simp add: example_full_run spec_push_def runq_len_def)
  show ?thesis using example_run n m g pf pn pt example_full_run s by (intro conjI)
qed

end
